theory Spec2Isabelle
  imports Main "HOL-Library.Sublist"
begin

section \<open>The playlist filter of \<open>filter_playlist.py\<close>\<close>

text \<open>
  The program reads a playlist with \<open>readlines\<close>, scans the lines with a cursor \<open>i\<close>,
  collects the retained lines in \<open>filtered_lines\<close>, writes them with \<open>writelines\<close> and
  prints three counts. A line is a \<^typ>\<open>string\<close> that keeps its terminator; the file
  that is read is the list of its lines and the file that is written is the list of
  retained lines. Opening, decoding and writing the files are not part of the model.
\<close>

subsection \<open>String operations used by the program\<close>

text \<open>
  \<open>str.lower\<close> on the letters \<open>A\<close> to \<open>Z\<close>; every other character is left as it is
  (the model covers ASCII text, which is what the keywords are made of).
\<close>

definition lower_char :: "char \<Rightarrow> char" where
  "lower_char c =
     (if 65 \<le> (of_char c :: nat) \<and> (of_char c :: nat) \<le> 90
      then char_of ((of_char c :: nat) + 32) else c)"

definition lower :: "string \<Rightarrow> string" where
  "lower s = map lower_char s"

text \<open>\<open>s.startswith(p)\<close>\<close>

definition startswith :: "string \<Rightarrow> string \<Rightarrow> bool" where
  "startswith s p = prefix p s"

text \<open>\<open>k in s\<close> on strings: \<open>k\<close> occurs in \<open>s\<close> as a contiguous block.\<close>

definition contains :: "string \<Rightarrow> string \<Rightarrow> bool" where
  "contains s k = sublist k s"

subsection \<open>The scan\<close>

text \<open>The list \<open>keywords\<close> of the source (the name is reserved in Isabelle).\<close>

definition keywords_list :: "string list" where
  "keywords_list = [''sports'', ''football'', ''Arsenal'', ''Peacock'', ''EPL'']"

text \<open>
  \<open>line_lower = line.lower()\<close> and
  \<open>matches = any(keyword.lower() in line_lower for keyword in keywords)\<close>
\<close>

definition matches :: "string \<Rightarrow> bool" where
  "matches line =
     (let line_lower = lower line
      in list_ex (\<lambda>keyword. contains line_lower (lower keyword)) keywords_list)"

text \<open>
  One iteration of the \<open>while\<close> loop, entered with \<open>i < len(lines)\<close>. The state is the
  cursor \<open>i\<close> and the list \<open>filtered_lines\<close>; the branches are those of the source, in
  its order. In the matched branch both arms of the inner \<open>if\<close> add one more to the
  cursor, as the source does.
\<close>

definition loop_body :: "string list \<Rightarrow> nat \<times> string list \<Rightarrow> nat \<times> string list" where
  "loop_body lines st =
     (let i = fst st; filtered_lines = snd st; line = lines ! i in
      if startswith line ''#EXTM3U'' \<or> startswith line ''#EXT-X-SESSION-DATA''
      then (i + 1, filtered_lines @ [line])
      else if startswith line ''#EXTINF'' then
        (if matches line then
           (if i + 1 < length lines \<and> \<not> startswith (lines ! (i + 1)) ''#''
            then (i + 1 + 1, filtered_lines @ [line] @ [lines ! (i + 1)])
            else (i + 1 + 1, filtered_lines @ [line]))
         else
           (if i + 1 < length lines \<and> \<not> startswith (lines ! (i + 1)) ''#''
            then (i + 1 + 1, filtered_lines)
            else (i + 1, filtered_lines)))
      else (i + 1, filtered_lines))"

text \<open>\<open>while i < len(lines): ...\<close>, returning \<open>filtered_lines\<close> when the loop ends.\<close>

function filter_loop :: "string list \<Rightarrow> nat \<times> string list \<Rightarrow> string list" where
  "filter_loop lines st =
     (if fst st < length lines then filter_loop lines (loop_body lines st) else snd st)"
  by pat_completeness auto
termination
proof (relation "measure (\<lambda>(lines, st). length lines - fst st)")
  show "wf (measure (\<lambda>(lines, st). length lines - fst st))" by simp
next
  fix lines :: "string list" and st :: "nat \<times> string list"
  assume "fst st < length lines"
  moreover have "fst st < fst (loop_body lines st)"
    by (simp add: loop_body_def Let_def)
  ultimately show "((lines, loop_body lines st), (lines, st))
      \<in> measure (\<lambda>(lines, st). length lines - fst st)"
    by simp
qed

declare filter_loop.simps [simp del]

text \<open>
  The three numbers the program prints: \<open>len(lines)\<close>, \<open>len(filtered_lines)\<close> and
  \<open>(len(filtered_lines) - 2) // 2\<close>. Python's \<open>//\<close> rounds down, as \<open>div\<close> on
  \<^typ>\<open>int\<close> does.
\<close>

record summary =
  input_line_count :: int
  output_line_count :: int
  matched_entry_count :: int

definition filter_playlist :: "string list \<Rightarrow> string list \<times> summary" where
  "filter_playlist lines =
     (let filtered_lines = filter_loop lines (0, [])
      in (filtered_lines,
          \<lparr> input_line_count = int (length lines),
            output_line_count = int (length filtered_lines),
            matched_entry_count = (int (length filtered_lines) - 2) div 2 \<rparr>))"

subsection \<open>The scan as a recursion over the remaining lines\<close>

text \<open>
  The same loop, read as a function of the lines from the cursor on. It is used in the
  proofs only; \<open>filter_loop_scan\<close> below shows that the loop computes it.
\<close>

fun scan :: "string list \<Rightarrow> string list" where
  "scan [] = []"
| "scan (line # rest) =
     (if startswith line ''#EXTM3U'' \<or> startswith line ''#EXT-X-SESSION-DATA''
      then line # scan rest
      else if startswith line ''#EXTINF'' then
        (if matches line then
           (case rest of
              [] \<Rightarrow> [line]
            | nxt # rest' \<Rightarrow>
                if \<not> startswith nxt ''#'' then line # nxt # scan rest' else line # scan rest')
         else
           (case rest of
              [] \<Rightarrow> []
            | nxt # rest' \<Rightarrow> if \<not> startswith nxt ''#'' then scan rest' else scan rest))
      else scan rest)"

declare scan.simps(2) [simp del]

subsection \<open>The positions of the retained lines\<close>

text \<open>
  The output is a list of line contents, and a playlist may hold the same content at
  several positions. To speak about which \<^emph>\<open>occurrences\<close> are retained, the loop is run
  a second time recording positions instead of contents: \<open>emitted lines i\<close> are the
  positions whose lines the iteration at cursor \<open>i\<close> appends to \<open>filtered_lines\<close>
  (\<open>loop_body_emitted\<close> below), and \<open>kept_loop\<close> moves the cursor exactly as
  \<open>loop_body\<close> does.
\<close>

definition emitted :: "string list \<Rightarrow> nat \<Rightarrow> nat list" where
  "emitted lines i =
     (let line = lines ! i in
      if startswith line ''#EXTM3U'' \<or> startswith line ''#EXT-X-SESSION-DATA''
      then [i]
      else if startswith line ''#EXTINF'' then
        (if matches line then
           (if i + 1 < length lines \<and> \<not> startswith (lines ! (i + 1)) ''#''
            then [i, i + 1]
            else [i])
         else [])
      else [])"

function kept_loop :: "string list \<Rightarrow> nat \<times> nat list \<Rightarrow> nat list" where
  "kept_loop lines st =
     (if fst st < length lines
      then kept_loop lines (fst (loop_body lines (fst st, [])), snd st @ emitted lines (fst st))
      else snd st)"
  by pat_completeness auto
termination
proof (relation "measure (\<lambda>(lines, st). length lines - fst st)")
  show "wf (measure (\<lambda>(lines, st). length lines - fst st))" by simp
next
  fix lines :: "string list" and st :: "nat \<times> nat list"
  assume "fst st < length lines"
  moreover have "fst st < fst (loop_body lines (fst st, []))"
    by (simp add: loop_body_def Let_def)
  ultimately show
    "((lines, fst (loop_body lines (fst st, [])), snd st @ emitted lines (fst st)), (lines, st))
      \<in> measure (\<lambda>(lines, st). length lines - fst st)"
    by simp
qed

declare kept_loop.simps [simp del]

definition kept_positions :: "string list \<Rightarrow> nat list" where
  "kept_positions lines = kept_loop lines (0, [])"

text \<open>
  The invariant for the pair of positions \<open>p\<close>, \<open>p + 1\<close>: until the cursor has passed
  both, neither has been recorded; afterwards both or neither.
\<close>

definition pair_inv :: "nat \<Rightarrow> nat \<times> nat list \<Rightarrow> bool" where
  "pair_inv p st =
     ((fst st \<le> Suc p \<and> p \<notin> set (snd st) \<and> Suc p \<notin> set (snd st))
      \<or> (Suc (Suc p) \<le> fst st \<and> (p \<in> set (snd st) \<longleftrightarrow> Suc p \<in> set (snd st))))"

text \<open>
  The shape of an output sequence in which every line that is not a marker line comes
  directly after a matched entry-metadata line (used to organise the proof of C10).
\<close>

definition refs_follow_matched :: "string list \<Rightarrow> bool" where
  "refs_follow_matched out =
     (\<forall>j<length out. \<not> startswith (out ! j) ''#'' \<longrightarrow>
        0 < j \<and> startswith (out ! (j - 1)) ''#EXTINF'' \<and> matches (out ! (j - 1)))"

section \<open>The loop computes the recursion\<close>

lemma scan_step:
  assumes "i < length lines"
  shows "acc @ scan (drop i lines) =
         snd (loop_body lines (i, acc)) @ scan (drop (fst (loop_body lines (i, acc))) lines)"
proof (cases "Suc i < length lines")
  case True
  have d: "drop i lines = lines ! i # drop (Suc i) lines"
    using assms by (simp add: Cons_nth_drop_Suc)
  have d1: "drop (Suc i) lines = lines ! Suc i # drop (Suc (Suc i)) lines"
    using True by (simp add: Cons_nth_drop_Suc)
  show ?thesis
    apply (subst d)
    apply (subst scan.simps(2))
    apply (simp add: loop_body_def Let_def True d1)
    done
next
  case False
  have d: "drop i lines = lines ! i # drop (Suc i) lines"
    using assms by (simp add: Cons_nth_drop_Suc)
  have d1: "drop (Suc i) lines = []" "drop (Suc (Suc i)) lines = []"
    using False by simp_all
  show ?thesis
    apply (subst d)
    apply (subst scan.simps(2))
    apply (simp add: loop_body_def Let_def False d1)
    done
qed

lemma filter_loop_scan: "filter_loop lines st = snd st @ scan (drop (fst st) lines)"
proof (induction lines st rule: filter_loop.induct)
  case (1 lines st)
  show ?case
  proof (cases "fst st < length lines")
    case False
    then show ?thesis by (simp add: filter_loop.simps)
  next
    case True
    have "filter_loop lines st = filter_loop lines (loop_body lines st)"
      using True by (subst filter_loop.simps) simp
    also have "\<dots> = snd (loop_body lines st) @ scan (drop (fst (loop_body lines st)) lines)"
      using "1.IH"[OF True] .
    also have "\<dots> = snd st @ scan (drop (fst st) lines)"
      using scan_step[OF True, of "snd st"] by simp
    finally show ?thesis .
  qed
qed

lemma header_is_marker:
  "startswith l ''#EXTM3U'' \<or> startswith l ''#EXT-X-SESSION-DATA'' \<or> startswith l ''#EXTINF''
   \<Longrightarrow> startswith l ''#''"
  by (auto simp: startswith_def prefix_def)

lemma extinf_not_header:
  "startswith l ''#EXTINF'' \<Longrightarrow>
   \<not> (startswith l ''#EXTM3U'' \<or> startswith l ''#EXT-X-SESSION-DATA'')"
  by (auto simp: startswith_def prefix_def)

lemma scan_Cons_cases:
  obtains (drop_all) "scan (line # rest) = scan rest"
  | (keep_one) "startswith line ''#''" "scan (line # rest) = line # scan rest"
  | (last_one) "startswith line ''#''" "rest = []" "scan (line # rest) = [line]"
  | (keep_skip) nxt rest' where "startswith line ''#''" "rest = nxt # rest'"
       "scan (line # rest) = line # scan rest'"
  | (keep_pair) nxt rest' where "startswith line ''#EXTINF''" "matches line"
       "\<not> startswith nxt ''#''" "rest = nxt # rest'"
       "scan (line # rest) = line # nxt # scan rest'"
  | (drop_pair) nxt rest' where "rest = nxt # rest'" "scan (line # rest) = scan rest'"
  | (drop_last) "rest = []" "scan (line # rest) = []"
proof (cases "startswith line ''#EXTM3U'' \<or> startswith line ''#EXT-X-SESSION-DATA''")
  case True
  then have "startswith line ''#''" using header_is_marker by blast
  moreover have "scan (line # rest) = line # scan rest" using True by (simp add: scan.simps(2))
  ultimately show ?thesis by (rule keep_one)
next
  case nh: False
  show ?thesis
  proof (cases "startswith line ''#EXTINF''")
    case False
    with nh have "scan (line # rest) = scan rest" by (simp add: scan.simps(2))
    then show ?thesis by (rule drop_all)
  next
    case ex: True
    then have m: "startswith line ''#''" using header_is_marker by blast
    show ?thesis
    proof (cases rest)
      case Nil
      show ?thesis
      proof (cases "matches line")
        case True
        with nh ex Nil have "scan (line # rest) = [line]" by (simp add: scan.simps(2))
        with m Nil show ?thesis by (rule last_one)
      next
        case False
        with nh ex Nil have "scan (line # rest) = []" by (simp add: scan.simps(2))
        with Nil show ?thesis by (rule drop_last)
      qed
    next
      case (Cons nxt rest')
      show ?thesis
      proof (cases "matches line")
        case mt: True
        show ?thesis
        proof (cases "startswith nxt ''#''")
          case True
          with nh ex mt Cons have "scan (line # rest) = line # scan rest'"
            by (simp add: scan.simps(2))
          with m Cons show ?thesis by (rule keep_skip)
        next
          case False
          with nh ex mt Cons have "scan (line # rest) = line # nxt # scan rest'"
            by (simp add: scan.simps(2))
          with ex mt False Cons show ?thesis by (rule keep_pair)
        qed
      next
        case mf: False
        show ?thesis
        proof (cases "startswith nxt ''#''")
          case True
          with nh ex mf Cons have "scan (line # rest) = scan rest"
            by (simp add: scan.simps(2))
          then show ?thesis by (rule drop_all)
        next
          case False
          with nh ex mf Cons have "scan (line # rest) = scan rest'"
            by (simp add: scan.simps(2))
          with Cons show ?thesis by (rule drop_pair)
        qed
      qed
    qed
  qed
qed

lemma subseq_scan: "subseq (scan ls) ls"
proof (induction ls rule: length_induct)
  case (1 ls)
  show ?case
  proof (cases ls)
    case Nil
    then show ?thesis by simp
  next
    case (Cons line rest)
    have IH: "subseq (scan rest) rest" using 1 Cons by simp
    have IH': "subseq (scan rest') rest'" if "rest = nxt # rest'" for nxt rest'
      using 1 Cons that by simp
    show ?thesis unfolding Cons
    proof (cases line rest rule: scan_Cons_cases)
      case drop_all
      then show "subseq (scan (line # rest)) (line # rest)" using IH by (simp add: list_emb_Cons)
    next
      case keep_one
      then show "subseq (scan (line # rest)) (line # rest)" using IH by simp
    next
      case last_one
      then show "subseq (scan (line # rest)) (line # rest)" by simp
    next
      case (keep_skip nxt rest')
      then show "subseq (scan (line # rest)) (line # rest)"
        using IH'[of nxt rest'] by (simp add: list_emb_Cons)
    next
      case (keep_pair nxt rest')
      then show "subseq (scan (line # rest)) (line # rest)"
        using IH'[of nxt rest'] by simp
    next
      case (drop_pair nxt rest')
      then show "subseq (scan (line # rest)) (line # rest)"
        using IH'[of nxt rest'] by (simp add: list_emb_Cons)
    next
      case drop_last
      then show "subseq (scan (line # rest)) (line # rest)" by simp
    qed
  qed
qed

lemma filter_playlist_scan: "fst (filter_playlist lines) = scan lines"
  by (simp add: filter_playlist_def Let_def filter_loop_scan)

lemma refs_follow_matched_Nil: "refs_follow_matched []"
  by (simp add: refs_follow_matched_def)

lemma refs_follow_matched_single: "startswith x ''#'' \<Longrightarrow> refs_follow_matched [x]"
  by (simp add: refs_follow_matched_def)

lemma refs_follow_matched_marker:
  assumes "startswith x ''#''" and "refs_follow_matched xs"
  shows "refs_follow_matched (x # xs)"
  unfolding refs_follow_matched_def
proof (intro allI impI)
  fix j assume j: "j < length (x # xs)" and n: "\<not> startswith ((x # xs) ! j) ''#''"
  from n assms(1) obtain k where k: "j = Suc k" by (cases j) auto
  with j n have "k < length xs" "\<not> startswith (xs ! k) ''#''" by simp_all
  with assms(2) have "0 < k" "startswith (xs ! (k - 1)) ''#EXTINF''" "matches (xs ! (k - 1))"
    unfolding refs_follow_matched_def by blast+
  then show "0 < j \<and> startswith ((x # xs) ! (j - 1)) ''#EXTINF'' \<and> matches ((x # xs) ! (j - 1))"
    using k by (cases k) simp_all
qed

lemma refs_follow_matched_pair:
  assumes "startswith x ''#EXTINF''" "matches x" and "refs_follow_matched xs"
  shows "refs_follow_matched (x # r # xs)"
  unfolding refs_follow_matched_def
proof (intro allI impI)
  fix j assume j: "j < length (x # r # xs)" and n: "\<not> startswith ((x # r # xs) ! j) ''#''"
  have xm: "startswith x ''#''" using assms(1) header_is_marker by blast
  from n xm obtain k where k: "j = Suc k" by (cases j) auto
  show "0 < j \<and> startswith ((x # r # xs) ! (j - 1)) ''#EXTINF''
        \<and> matches ((x # r # xs) ! (j - 1))"
  proof (cases k)
    case 0
    with k assms(1,2) show ?thesis by simp
  next
    case (Suc m)
    with k j n have "m < length xs" "\<not> startswith (xs ! m) ''#''" by simp_all
    with assms(3) have "0 < m" "startswith (xs ! (m - 1)) ''#EXTINF''" "matches (xs ! (m - 1))"
      unfolding refs_follow_matched_def by blast+
    then show ?thesis using k Suc by (cases m) simp_all
  qed
qed

lemma scan_shape: "refs_follow_matched (scan ls)"
proof (induction ls rule: length_induct)
  case (1 ls)
  show ?case
  proof (cases ls)
    case Nil
    then show ?thesis by (simp add: refs_follow_matched_Nil)
  next
    case (Cons line rest)
    have IH: "refs_follow_matched (scan rest)" using 1 Cons by simp
    have IH': "refs_follow_matched (scan rest')" if "rest = nxt # rest'" for nxt rest'
      using 1 Cons that by simp
    show ?thesis unfolding Cons
    proof (cases line rest rule: scan_Cons_cases)
      case drop_all
      then show "refs_follow_matched (scan (line # rest))" using IH by simp
    next
      case keep_one
      then show "refs_follow_matched (scan (line # rest))"
        using IH by (simp add: refs_follow_matched_marker)
    next
      case last_one
      then show "refs_follow_matched (scan (line # rest))"
        by (simp add: refs_follow_matched_single)
    next
      case (keep_skip nxt rest')
      then show "refs_follow_matched (scan (line # rest))"
        using IH'[of nxt rest'] by (simp add: refs_follow_matched_marker)
    next
      case (keep_pair nxt rest')
      then show "refs_follow_matched (scan (line # rest))"
        using IH'[of nxt rest'] by (simp add: refs_follow_matched_pair)
    next
      case (drop_pair nxt rest')
      then show "refs_follow_matched (scan (line # rest))" using IH'[of nxt rest'] by simp
    next
      case drop_last
      then show "refs_follow_matched (scan (line # rest))"
        by (simp add: refs_follow_matched_Nil)
    qed
  qed
qed

section \<open>The recorded positions\<close>

lemma loop_body_emitted:
  "loop_body lines (i, acc) =
     (fst (loop_body lines (i, [])), acc @ map (\<lambda>p. lines ! p) (emitted lines i))"
  by (simp add: loop_body_def emitted_def Let_def)

lemma filter_loop_kept_loop:
  "filter_loop lines (fst st, map (\<lambda>p. lines ! p) (snd st)) =
     map (\<lambda>p. lines ! p) (kept_loop lines st)"
proof (induction lines st rule: kept_loop.induct)
  case (1 lines st)
  show ?case
  proof (cases "fst st < length lines")
    case False
    then show ?thesis by (simp add: filter_loop.simps kept_loop.simps)
  next
    case True
    let ?f = "\<lambda>p. lines ! p"
    let ?st' = "(fst (loop_body lines (fst st, [])), snd st @ emitted lines (fst st))"
    have "filter_loop lines (fst st, map ?f (snd st))
          = filter_loop lines (loop_body lines (fst st, map ?f (snd st)))"
      using True by (subst filter_loop.simps) simp
    also have "loop_body lines (fst st, map ?f (snd st)) = (fst ?st', map ?f (snd ?st'))"
      by (subst loop_body_emitted) simp
    also have "filter_loop lines (fst ?st', map ?f (snd ?st')) = map ?f (kept_loop lines ?st')"
      using "1.IH"[OF True] .
    also have "kept_loop lines ?st' = kept_loop lines st"
      using True by (subst (2) kept_loop.simps) simp
    finally show ?thesis .
  qed
qed

lemma filter_playlist_kept_positions:
  "fst (filter_playlist lines) = map (\<lambda>p. lines ! p) (kept_positions lines)"
  using filter_loop_kept_loop[of lines "(0, [])"]
  by (simp add: filter_playlist_def Let_def kept_positions_def)

lemma pair_inv_step:
  assumes p: "Suc p < length lines" "startswith (lines ! p) ''#EXTINF''"
             "\<not> startswith (lines ! Suc p) ''#''"
      and i: "i < length lines"
      and inv: "pair_inv p (i, ks)"
  shows "pair_inv p (fst (loop_body lines (i, [])), ks @ emitted lines i)"
proof -
  have pm: "startswith (lines ! p) ''#''" using p(2) header_is_marker by blast
  have pnh: "\<not> startswith (lines ! p) ''#EXTM3U''"
            "\<not> startswith (lines ! p) ''#EXT-X-SESSION-DATA''"
    using p(2) extinf_not_header by blast+
  have qn: "\<not> startswith (lines ! Suc p) ''#EXTM3U''"
           "\<not> startswith (lines ! Suc p) ''#EXT-X-SESSION-DATA''"
           "\<not> startswith (lines ! Suc p) ''#EXTINF''"
    using p(3) header_is_marker by blast+
  consider (before) "Suc i < p" | (just_before) "Suc i = p" | (at) "i = p" | (ref) "i = Suc p"
    | (after) "Suc (Suc p) \<le> i"
    by linarith
  then show ?thesis
  proof cases
    case before
    with inv show ?thesis
      by (auto simp add: pair_inv_def loop_body_def emitted_def Let_def)
  next
    case just_before
    with inv pm show ?thesis
      by (auto simp add: pair_inv_def loop_body_def emitted_def Let_def)
  next
    case at
    with inv p pnh show ?thesis
      by (auto simp add: pair_inv_def loop_body_def emitted_def Let_def)
  next
    case ref
    with inv qn show ?thesis
      by (auto simp add: pair_inv_def loop_body_def emitted_def Let_def)
  next
    case after
    with inv show ?thesis
      by (auto simp add: pair_inv_def loop_body_def emitted_def Let_def)
  qed
qed

lemma kept_loop_atomic:
  assumes "Suc p < length lines" "startswith (lines ! p) ''#EXTINF''"
          "\<not> startswith (lines ! Suc p) ''#''"
      and "pair_inv p st"
  shows "p \<in> set (kept_loop lines st) \<longleftrightarrow> Suc p \<in> set (kept_loop lines st)"
  using assms
proof (induction lines st rule: kept_loop.induct)
  case (1 lines st)
  show ?case
  proof (cases "fst st < length lines")
    case False
    with "1.prems"(4) show ?thesis
      by (subst (1 2) kept_loop.simps) (auto simp add: pair_inv_def)
  next
    case True
    let ?st' = "(fst (loop_body lines (fst st, [])), snd st @ emitted lines (fst st))"
    have "pair_inv p ?st'"
      using pair_inv_step[OF "1.prems"(1,2,3) True, of "snd st"] "1.prems"(4) by simp
    then have "p \<in> set (kept_loop lines ?st') \<longleftrightarrow> Suc p \<in> set (kept_loop lines ?st')"
      using "1.IH"[OF True "1.prems"(1,2,3)] by blast
    moreover have "kept_loop lines st = kept_loop lines ?st'"
      using True by (subst kept_loop.simps) simp
    ultimately show ?thesis by simp
  qed
qed

lemma kept_loop_sorted:
  assumes "sorted_wrt (<) (snd st)" "\<forall>k\<in>set (snd st). k < fst st \<and> k < length lines"
  shows "sorted_wrt (<) (kept_loop lines st) \<and> (\<forall>k\<in>set (kept_loop lines st). k < length lines)"
  using assms
proof (induction lines st rule: kept_loop.induct)
  case (1 lines st)
  show ?case
  proof (cases "fst st < length lines")
    case False
    with "1.prems" show ?thesis
      by (subst (1 2) kept_loop.simps) auto
  next
    case True
    let ?st' = "(fst (loop_body lines (fst st, [])), snd st @ emitted lines (fst st))"
    have e: "sorted_wrt (<) (emitted lines (fst st))"
            "\<forall>k\<in>set (emitted lines (fst st)). fst st \<le> k \<and> k < fst ?st' \<and> k < length lines"
      using True by (auto simp add: emitted_def loop_body_def Let_def)
    have a: "sorted_wrt (<) (snd ?st')"
      using "1.prems" e by (fastforce simp add: sorted_wrt_append)
    have "fst st < fst ?st'" by (simp add: loop_body_def Let_def)
    then have b: "\<forall>k\<in>set (snd ?st'). k < fst ?st' \<and> k < length lines"
      using "1.prems"(2) e(2) by fastforce
    have "sorted_wrt (<) (kept_loop lines ?st') \<and> (\<forall>k\<in>set (kept_loop lines ?st'). k < length lines)"
      using "1.IH"[OF True a b] .
    moreover have "kept_loop lines st = kept_loop lines ?st'"
      using True by (subst kept_loop.simps) simp
    ultimately show ?thesis by simp
  qed
qed

section \<open>Properties of every run\<close>

text \<open>
  C7. The output consists of the lines at the recorded positions, which are strictly
  increasing positions of the input. For every entry-metadata line at a position \<open>p\<close>
  whose next line exists and does not start with \<open>#\<close>, position \<open>p\<close> is retained if and
  only if position \<open>p + 1\<close> is: both lines of the entry are written or neither.
\<close>

theorem C7_pairing_atomicity:
  "fst (filter_playlist lines) = map (\<lambda>p. lines ! p) (kept_positions lines)
   \<and> sorted_wrt (<) (kept_positions lines)
   \<and> (\<forall>p\<in>set (kept_positions lines). p < length lines)
   \<and> (\<forall>p. Suc p < length lines \<and> startswith (lines ! p) ''#EXTINF''
            \<and> \<not> startswith (lines ! Suc p) ''#''
        \<longrightarrow> (p \<in> set (kept_positions lines) \<longleftrightarrow> Suc p \<in> set (kept_positions lines)))"
proof (intro conjI allI impI)
  show "fst (filter_playlist lines) = map (\<lambda>p. lines ! p) (kept_positions lines)"
    by (rule filter_playlist_kept_positions)
next
  show "sorted_wrt (<) (kept_positions lines)"
    using kept_loop_sorted[of "(0, [])" lines] by (simp add: kept_positions_def)
next
  show "\<forall>p\<in>set (kept_positions lines). p < length lines"
    using kept_loop_sorted[of "(0, [])" lines] by (simp add: kept_positions_def)
next
  fix p
  assume "Suc p < length lines \<and> startswith (lines ! p) ''#EXTINF''
            \<and> \<not> startswith (lines ! Suc p) ''#''"
  then show "p \<in> set (kept_positions lines) \<longleftrightarrow> Suc p \<in> set (kept_positions lines)"
    unfolding kept_positions_def
    by (intro kept_loop_atomic) (simp_all add: pair_inv_def)
qed

theorem C7_witness:
  "Suc 3 < length [''#EXTM3U\<newline>'', ''#EXTINF:0,Random Channel\<newline>'', ''http://x/1\<newline>'',
        ''#EXTINF:0,Arsenal TV\<newline>'', ''http://x/2\<newline>'']
   \<and> startswith ([''#EXTM3U\<newline>'', ''#EXTINF:0,Random Channel\<newline>'', ''http://x/1\<newline>'',
        ''#EXTINF:0,Arsenal TV\<newline>'', ''http://x/2\<newline>''] ! 3) ''#EXTINF''
   \<and> \<not> startswith ([''#EXTM3U\<newline>'', ''#EXTINF:0,Random Channel\<newline>'', ''http://x/1\<newline>'',
        ''#EXTINF:0,Arsenal TV\<newline>'', ''http://x/2\<newline>''] ! Suc 3) ''#''
   \<and> 3 \<in> set (kept_positions [''#EXTM3U\<newline>'', ''#EXTINF:0,Random Channel\<newline>'',
        ''http://x/1\<newline>'', ''#EXTINF:0,Arsenal TV\<newline>'', ''http://x/2\<newline>''])
   \<and> Suc 3 \<in> set (kept_positions [''#EXTM3U\<newline>'', ''#EXTINF:0,Random Channel\<newline>'',
        ''http://x/1\<newline>'', ''#EXTINF:0,Arsenal TV\<newline>'', ''http://x/2\<newline>''])"
proof -
  let ?A = "[''#EXTM3U\<newline>'', ''#EXTINF:0,Random Channel\<newline>'', ''http://x/1\<newline>'',
        ''#EXTINF:0,Arsenal TV\<newline>'', ''http://x/2\<newline>'']"
  have h: "Suc 3 < length ?A \<and> startswith (?A ! 3) ''#EXTINF'' \<and> \<not> startswith (?A ! Suc 3) ''#''"
    by code_simp
  have k: "3 \<in> set (kept_positions ?A)" by code_simp
  from C7_pairing_atomicity[of ?A] h
  have "3 \<in> set (kept_positions ?A) \<longleftrightarrow> Suc 3 \<in> set (kept_positions ?A)" by blast
  with h k show ?thesis by blast
qed

text \<open>
  C8. The lines written are a subsequence of the lines read: each is an input line as
  it was read, the order is kept, and no line is written twice or merged.
\<close>

theorem C8_output_is_subsequence: "subseq (fst (filter_playlist lines)) lines"
  by (simp add: filter_playlist_scan subseq_scan)

text \<open>
  C9. If a keyword of the list occurs in a line in any mix of upper and lower case
  (a block \<open>variant\<close> of the line whose lower-case form is that of the keyword), the
  line matches. Nothing is asked of the text around the block, so a keyword inside an
  unrelated word matches as well.
\<close>

theorem C9_case_insensitive_substring:
  assumes "keyword \<in> set keywords_list"
      and "lower variant = lower keyword"
      and "contains line variant"
  shows "matches line"
proof -
  from assms(3) have "sublist variant line" by (simp add: contains_def)
  then have "sublist (map lower_char variant) (map lower_char line)"
    by (rule map_mono_sublist)
  then have "contains (lower line) (lower keyword)"
    using assms(2) by (simp add: contains_def lower_def)
  with assms(1) show ?thesis
    by (auto simp add: matches_def Let_def list_ex_iff)
qed

theorem C9_witness:
  "''sports'' \<in> set keywords_list
   \<and> lower ''SpOrTs'' = lower ''sports''
   \<and> contains ''#EXTINF:0,TranSpOrTs Channel\<newline>'' ''SpOrTs''
   \<and> matches ''#EXTINF:0,TranSpOrTs Channel\<newline>''"
proof -
  have a: "''sports'' \<in> set keywords_list" by (simp add: keywords_list_def)
  have b: "lower ''SpOrTs'' = lower ''sports''" by code_simp
  have c: "contains ''#EXTINF:0,TranSpOrTs Channel\<newline>'' ''SpOrTs''" by code_simp
  show ?thesis using a b c C9_case_insensitive_substring[OF a b c] by simp
qed

text \<open>
  C10. Every written line that does not start with \<open>#\<close> is not the first written line,
  and the line written directly before it starts with \<open>#EXTINF\<close> and matches a keyword.
\<close>

theorem C10_reference_lines_follow_matched_metadata:
  "\<forall>j<length (fst (filter_playlist lines)).
      \<not> startswith (fst (filter_playlist lines) ! j) ''#'' \<longrightarrow>
      0 < j \<and> startswith (fst (filter_playlist lines) ! (j - 1)) ''#EXTINF''
      \<and> matches (fst (filter_playlist lines) ! (j - 1))"
  using scan_shape[of lines] unfolding filter_playlist_scan refs_follow_matched_def .

theorem C10_witness:
  "2 < length (fst (filter_playlist
       [''#EXTM3U\<newline>'', ''#EXTINF:0,Arsenal TV\<newline>'', ''http://x/2\<newline>'']))
   \<and> \<not> startswith (fst (filter_playlist
       [''#EXTM3U\<newline>'', ''#EXTINF:0,Arsenal TV\<newline>'', ''http://x/2\<newline>'']) ! 2) ''#''
   \<and> startswith (fst (filter_playlist
       [''#EXTM3U\<newline>'', ''#EXTINF:0,Arsenal TV\<newline>'', ''http://x/2\<newline>'']) ! (2 - 1)) ''#EXTINF''
   \<and> matches (fst (filter_playlist
       [''#EXTM3U\<newline>'', ''#EXTINF:0,Arsenal TV\<newline>'', ''http://x/2\<newline>'']) ! (2 - 1))"
proof -
  let ?out = "fst (filter_playlist
       [''#EXTM3U\<newline>'', ''#EXTINF:0,Arsenal TV\<newline>'', ''http://x/2\<newline>''])"
  have a: "2 < length ?out" by code_simp
  have b: "\<not> startswith (?out ! 2) ''#''" by code_simp
  from C10_reference_lines_follow_matched_metadata[rule_format, OF a b] a b
  show ?thesis by simp
qed

section \<open>Behaviour on concrete playlists\<close>

text \<open>
  C1. A matched entry-metadata line is followed by a marker line (here a second
  \<open>#EXTINF\<close> line). The iteration at cursor 0 leaves the cursor at 2, not at 1: the
  marker line is consumed together with the matched entry, is never the current line
  of an iteration, and its own entry (which matches \<open>sports\<close>) is lost from the output.
\<close>

theorem C1_matched_entry_consumes_following_marker:
  "loop_body [''#EXTINF:0,Arsenal TV\<newline>'', ''#EXTINF:0,Sky Sports\<newline>'', ''http://x/2\<newline>''] (0, [])
     = (2, [''#EXTINF:0,Arsenal TV\<newline>''])
   \<and> startswith ''#EXTINF:0,Sky Sports\<newline>'' ''#''
   \<and> matches ''#EXTINF:0,Sky Sports\<newline>''
   \<and> fst (filter_playlist
        [''#EXTINF:0,Arsenal TV\<newline>'', ''#EXTINF:0,Sky Sports\<newline>'', ''http://x/2\<newline>''])
     = [''#EXTINF:0,Arsenal TV\<newline>'']"
  by code_simp

text \<open>
  C2. A header line that immediately follows a matched entry-metadata line is absent
  from the output.
\<close>

theorem C2_header_after_matched_entry_dropped:
  "startswith ''#EXTM3U\<newline>'' ''#EXTM3U''
   \<and> matches ''#EXTINF:0,Arsenal TV\<newline>''
   \<and> fst (filter_playlist [''#EXTINF:0,Arsenal TV\<newline>'', ''#EXTM3U\<newline>''])
     = [''#EXTINF:0,Arsenal TV\<newline>'']"
  by code_simp

text \<open>
  C3. On the five lines of Scenario A the three expected lines are written, and the
  count that is printed as matched channels is 0, where one entry matched.
\<close>

theorem C3_scenario_A:
  "filter_playlist
     [''#EXTM3U\<newline>'', ''#EXTINF:0,Random Channel\<newline>'', ''http://x/1\<newline>'',
      ''#EXTINF:0,Arsenal TV\<newline>'', ''http://x/2\<newline>'']
   = ([''#EXTM3U\<newline>'', ''#EXTINF:0,Arsenal TV\<newline>'', ''http://x/2\<newline>''],
      \<lparr> input_line_count = 5, output_line_count = 3, matched_entry_count = 0 \<rparr>)"
  by code_simp

text \<open>
  C4. A playlist without header lines whose single entry matches and has its reference
  line: both lines are written and the printed count of matched channels is 0. A
  playlist with one header line and one matched entry without a reference line: the
  printed count is 0 as well.
\<close>

theorem C4_count_not_number_of_matches:
  "matches ''#EXTINF:-1,Sky Sports 1\<newline>''
   \<and> filter_playlist [''#EXTINF:-1,Sky Sports 1\<newline>'', ''http://x/1\<newline>'']
     = ([''#EXTINF:-1,Sky Sports 1\<newline>'', ''http://x/1\<newline>''],
        \<lparr> input_line_count = 2, output_line_count = 2, matched_entry_count = 0 \<rparr>)
   \<and> filter_playlist [''#EXTM3U\<newline>'', ''#EXTINF:-1,Sky Sports 1\<newline>'']
     = ([''#EXTM3U\<newline>'', ''#EXTINF:-1,Sky Sports 1\<newline>''],
        \<lparr> input_line_count = 2, output_line_count = 2, matched_entry_count = 0 \<rparr>)"
  by code_simp

text \<open>
  C5. On the empty playlist nothing is written, both line counts are 0 and the printed
  count of matched channels is \<open>(0 - 2) // 2 = -1\<close>.
\<close>

theorem C5_empty_input:
  "filter_playlist []
   = ([], \<lparr> input_line_count = 0, output_line_count = 0, matched_entry_count = - 1 \<rparr>)"
  by code_simp

text \<open>
  C6. Filtering the output of a first pass again can remove a line: the header that
  follows the matched entry in the first output is consumed by the second pass.
\<close>

theorem C6_refilter_changes_output:
  "fst (filter_playlist [''#EXTINF:0,Arsenal TV\<newline>'', ''#EXTM3U\<newline>'', ''#EXTM3U\<newline>''])
     = [''#EXTINF:0,Arsenal TV\<newline>'', ''#EXTM3U\<newline>'']
   \<and> fst (filter_playlist (fst (filter_playlist
          [''#EXTINF:0,Arsenal TV\<newline>'', ''#EXTM3U\<newline>'', ''#EXTM3U\<newline>''])))
     = [''#EXTINF:0,Arsenal TV\<newline>'']"
  by code_simp

end
